theory Spec2Isabelle
  imports Main "HOL-Library.Word"
begin

section \<open>The Connection class of src/index.ts\<close>

text \<open>
  The class owns one WebSocket, one pending connect promise and one reconnect timer.
  Everything it touches outside its own fields (the sockets and their listener tables,
  the timer table of the event loop, the promises it hands out, the logger and the four
  subjects) is kept in the same record as explicit environment state, and every call
  into that environment is appended to a trace of effects.
\<close>

subsection \<open>Values\<close>

type_synonym bytes = "8 word list"

text \<open>The messages passed to the logger; template strings keep their parameter.\<close>

datatype message =
    ClientIsntConnected
  | ConnectionIsAlreadyRequested
  | AlreadyConnected
  | WillReconnectIn int
  | ExpectingOnlyBinaryData
  | FailToConnect string
  | ConnectionError string
  | AttemptToOpenSocketWhileCurrentIsntClosed

text \<open>\<^verbatim>\<open>new Error(msg)\<close>.\<close>

datatype js_error = Error message

text \<open>\<^verbatim>\<open>WebSocket.Data = string | Buffer | ArrayBuffer | Buffer[]\<close>.\<close>

datatype payload =
    StringData string
  | BufferData bytes
  | ArrayBufferData bytes
  | BufferArray "bytes list"

text \<open>The four listener names, and the notifications a socket delivers to them.\<close>

datatype evkind = OpenK | MessageK | CloseK | ErrorK

datatype notification =
    OpenEvent
  | CloseEvent
  | MessageEvent payload
  | ErrorEvent string

fun kind_of :: "notification \<Rightarrow> evkind" where
  "kind_of OpenEvent = OpenK"
| "kind_of CloseEvent = CloseK"
| "kind_of (MessageEvent d) = MessageK"
| "kind_of (ErrorEvent m) = ErrorK"

text \<open>The subjects of \<^verbatim>\<open>_subjects\<close>, in key order, and what is emitted on them.\<close>

datatype subject = SConnected | SDisconnected | SError | SData

datatype emission =
    EmitConnected
  | EmitDisconnected
  | EmitError js_error
  | EmitData bytes

datatype level = Debug | Err

text \<open>
  Calls into the environment. Sockets, timers and promises are named by the number
  they were allocated under.
\<close>

datatype effect =
    Log level message
  | NewWebSocket nat string
  | AddEventListener nat evkind
  | RemoveEventListener nat evkind
  | SocketSend nat bytes
  | SocketClose nat
  | SetTimeout int int
  | ClearTimeout int
  | Resolve nat
  | Reject nat js_error
  | Emit emission
  | SubjectDestroy subject
  | Uncaught js_error

subsection \<open>State\<close>

text \<open>
  The first eight fields are the fields of the class (\<^verbatim>\<open>_options\<close> flattened to
  the two options the class reads). The rest is the environment: which listeners each
  socket has registered, which timers are armed and with which delay (every timer the
  class arms has the same callback, \<^verbatim>\<open>_open\<close>), the allocation counters and the
  trace.
\<close>

record world =
  socket :: "nat option"
  connected :: bool
  pending :: "nat option"
  timeout :: int
  logger :: nat
  address :: string
  autoconnect :: bool
  reconnect :: int
  listeners :: "nat \<Rightarrow> evkind set"
  timers :: "int \<rightharpoonup> int"
  next_socket :: nat
  next_timer :: int
  next_promise :: nat
  trace :: "effect list"

text \<open>
  The resolved \<^verbatim>\<open>ConnectionOptions\<close>. The class that computes them from the
  caller's \<^verbatim>\<open>IConnectionOptions\<close> (options.ts) is not part of the sources, so the
  resolved values are a parameter of the constructor.
\<close>

record options =
  opt_logger :: nat
  opt_autoconnect :: bool
  opt_reconnect :: int

subsection \<open>Environment primitives\<close>

definition effect :: "effect \<Rightarrow> world \<Rightarrow> world" where
  "effect e w = w\<lparr>trace := trace w @ [e]\<rparr>"

text \<open>\<^verbatim>\<open>this._logger.debug(msg)\<close> and \<^verbatim>\<open>this._logger.err(msg)\<close> return the message.\<close>

definition logger_debug :: "message \<Rightarrow> world \<Rightarrow> world" where
  "logger_debug m w = effect (Log Debug m) w"

definition logger_err :: "message \<Rightarrow> world \<Rightarrow> world" where
  "logger_err m w = effect (Log Err m) w"

definition emit :: "emission \<Rightarrow> world \<Rightarrow> world" where
  "emit e w = effect (Emit e) w"

text \<open>Clearing a handle that is not armed (such as the initial -1) does nothing.\<close>

definition clearTimeout :: "int \<Rightarrow> world \<Rightarrow> world" where
  "clearTimeout h w = effect (ClearTimeout h) (w\<lparr>timers := (timers w)(h := None)\<rparr>)"

definition setTimeout :: "int \<Rightarrow> world \<Rightarrow> int \<times> world" where
  "setTimeout d w =
     (next_timer w,
      effect (SetTimeout (next_timer w) d)
        (w\<lparr>timers := (timers w)(next_timer w \<mapsto> d), next_timer := next_timer w + 1\<rparr>))"

definition addEventListener :: "nat \<Rightarrow> evkind \<Rightarrow> world \<Rightarrow> world" where
  "addEventListener k e w =
     effect (AddEventListener k e) (w\<lparr>listeners := (listeners w)(k := insert e (listeners w k))\<rparr>)"

definition removeEventListener :: "nat \<Rightarrow> evkind \<Rightarrow> world \<Rightarrow> world" where
  "removeEventListener k e w =
     effect (RemoveEventListener k e) (w\<lparr>listeners := (listeners w)(k := listeners w k - {e})\<rparr>)"

text \<open>\<^verbatim>\<open>new WebSocket(address)\<close>: a fresh socket, without listeners.\<close>

definition new_WebSocket :: "string \<Rightarrow> world \<Rightarrow> nat \<times> world" where
  "new_WebSocket addr w =
     (next_socket w,
      effect (NewWebSocket (next_socket w) addr) (w\<lparr>next_socket := Suc (next_socket w)\<rparr>))"

definition new_Promise :: "world \<Rightarrow> nat \<times> world" where
  "new_Promise w = (next_promise w, w\<lparr>next_promise := Suc (next_promise w)\<rparr>)"

text \<open>\<^verbatim>\<open>Promise.reject(err)\<close> and \<^verbatim>\<open>Promise.resolve(undefined)\<close>.\<close>

definition Promise_reject :: "js_error \<Rightarrow> world \<Rightarrow> nat \<times> world" where
  "Promise_reject e w = (case new_Promise w of (p, w') \<Rightarrow> (p, effect (Reject p e) w'))"

definition Promise_resolve :: "world \<Rightarrow> nat \<times> world" where
  "Promise_resolve w = (case new_Promise w of (p, w') \<Rightarrow> (p, effect (Resolve p) w'))"

subsection \<open>Private methods\<close>

text \<open>\<^verbatim>\<open>_open\<close>: the thrown error, if any, is the first component.\<close>

definition priv_open :: "world \<Rightarrow> js_error option \<times> world" where
  "priv_open w =
     (if socket w \<noteq> None then
        (Some (Error AttemptToOpenSocketWhileCurrentIsntClosed),
         logger_err AttemptToOpenSocketWhileCurrentIsntClosed w)
      else
        (case new_WebSocket (address w) w of (k, w1) \<Rightarrow>
          (None,
           addEventListener k ErrorK
             (addEventListener k CloseK
               (addEventListener k MessageK
                 (addEventListener k OpenK (w1\<lparr>socket := Some k\<rparr>)))))))"

text \<open>\<^verbatim>\<open>_reconnect\<close>.\<close>

definition priv_reconnect :: "world \<Rightarrow> world" where
  "priv_reconnect w =
     (if reconnect w \<le> 0 then w
      else
        (case setTimeout (reconnect w) (clearTimeout (timeout w) w) of (h, w1) \<Rightarrow>
          logger_debug (WillReconnectIn (reconnect w)) (w1\<lparr>timeout := h\<rparr>)))"

text \<open>\<^verbatim>\<open>_drop\<close>.\<close>

definition priv_drop :: "world \<Rightarrow> world" where
  "priv_drop w = (let w1 = w\<lparr>reconnect := - 1\<rparr> in clearTimeout (timeout w1) w1)"

text \<open>\<^verbatim>\<open>_close\<close>.\<close>

definition priv_close :: "world \<Rightarrow> world" where
  "priv_close w =
     priv_reconnect
       (case socket w of
          None \<Rightarrow> w
        | Some k \<Rightarrow>
            (effect (SocketClose k)
              (removeEventListener k ErrorK
                (removeEventListener k CloseK
                  (removeEventListener k MessageK
                    (removeEventListener k OpenK w)))))\<lparr>socket := None\<rparr>)"

subsection \<open>Notification handlers\<close>

definition events_open :: "world \<Rightarrow> world" where
  "events_open w =
     (let w1 = w\<lparr>connected := True\<rparr>;
          w2 = (case pending w1 of
                  None \<Rightarrow> w1
                | Some p \<Rightarrow> (effect (Resolve p) w1)\<lparr>pending := None\<rparr>)
      in emit EmitConnected w2)"

definition events_close :: "world \<Rightarrow> world" where
  "events_close w = emit EmitDisconnected (priv_close (w\<lparr>connected := False\<rparr>))"

fun events_message :: "payload \<Rightarrow> world \<Rightarrow> world" where
  "events_message (StringData t) w =
     emit (EmitError (Error ExpectingOnlyBinaryData)) (logger_debug ExpectingOnlyBinaryData w)"
| "events_message (BufferData b) w = emit (EmitData b) w"
| "events_message (ArrayBufferData b) w = emit (EmitData b) w"
| "events_message (BufferArray bs) w = emit (EmitData (concat bs)) w"

definition events_error :: "string \<Rightarrow> world \<Rightarrow> world" where
  "events_error m w =
     (let w1 = w\<lparr>connected := False\<rparr>;
          w2 = (case pending w1 of
                  None \<Rightarrow> w1
                | Some p \<Rightarrow>
                    (effect (Reject p (Error (FailToConnect m)))
                      (logger_debug (FailToConnect m) w1))\<lparr>pending := None\<rparr>);
          w3 = emit (EmitError (Error (ConnectionError m))) (logger_debug (ConnectionError m) w2)
      in priv_close w3)"

subsection \<open>Public methods\<close>

definition send :: "bytes \<Rightarrow> world \<Rightarrow> js_error option \<times> world" where
  "send buffer w =
     (if \<not> connected w \<or> socket w = None then
        (Some (Error ClientIsntConnected), logger_debug ClientIsntConnected w)
      else (None, effect (SocketSend (the (socket w)) buffer) w))"

text \<open>
  \<^verbatim>\<open>connect\<close> returns the promise. An error thrown by \<^verbatim>\<open>_open\<close> inside the
  promise's executor rejects that promise.
\<close>

definition connect :: "world \<Rightarrow> nat \<times> world" where
  "connect w0 =
     (let w = clearTimeout (timeout w0) w0 in
      if pending w \<noteq> None then
        Promise_reject (Error ConnectionIsAlreadyRequested)
          (logger_debug ConnectionIsAlreadyRequested w)
      else if connected w \<or> socket w \<noteq> None then
        Promise_reject (Error AlreadyConnected) (logger_debug AlreadyConnected w)
      else
        (case new_Promise w of (p, w1) \<Rightarrow>
          (case priv_open (w1\<lparr>pending := Some p\<rparr>) of
             (None, w2) \<Rightarrow> (p, w2)
           | (Some e, w2) \<Rightarrow> (p, effect (Reject p e) w2))))"

definition disconnect :: "world \<Rightarrow> nat \<times> world" where
  "disconnect w = Promise_resolve (priv_close (priv_drop w))"

definition destroy :: "world \<Rightarrow> nat \<times> world" where
  "destroy w =
     (let w1 = (priv_close (priv_drop w))\<lparr>pending := None\<rparr>;
          w2 = effect (SubjectDestroy SData)
                 (effect (SubjectDestroy SError)
                   (effect (SubjectDestroy SDisconnected)
                     (effect (SubjectDestroy SConnected) w1)))
      in Promise_resolve w2)"

text \<open>The constructor, in an environment without sockets, timers or promises.\<close>

definition constructor :: "string \<Rightarrow> options \<Rightarrow> world" where
  "constructor addr opts =
     (let w = \<lparr>socket = None, connected = False, pending = None, timeout = - 1,
               logger = opt_logger opts, address = addr,
               autoconnect = opt_autoconnect opts, reconnect = opt_reconnect opts,
               listeners = (\<lambda>k. {}), timers = Map.empty,
               next_socket = 0, next_timer = 0, next_promise = 0, trace = []\<rparr>
      in if autoconnect w then snd (connect w) else w)"

subsection \<open>The event loop\<close>

text \<open>
  One turn of the single-threaded loop is a call of a public method, a notification of
  some socket, or a timer firing. A notification reaches its handler only when the
  handler is registered on that socket; a timer fires only while armed, and runs
  \<^verbatim>\<open>_open\<close>, whose error nobody catches. An emit is recorded in the trace; what
  the subscribers do with it, such as calling back into the class before the emitting
  handler has finished, is not part of the model, and neither is the inside of the
  socket (whether its own send or close may throw).
\<close>

datatype input =
    Connect
  | Disconnect
  | Destroy
  | Send bytes
  | Notify nat notification
  | TimerFire int

fun handle :: "notification \<Rightarrow> world \<Rightarrow> world" where
  "handle OpenEvent w = events_open w"
| "handle CloseEvent w = events_close w"
| "handle (MessageEvent d) w = events_message d w"
| "handle (ErrorEvent m) w = events_error m w"

definition timer_callback :: "world \<Rightarrow> world" where
  "timer_callback w =
     (case priv_open w of
        (None, w1) \<Rightarrow> w1
      | (Some e, w1) \<Rightarrow> effect (Uncaught e) w1)"

fun step :: "input \<Rightarrow> world \<Rightarrow> world" where
  "step Connect w = snd (connect w)"
| "step Disconnect w = snd (disconnect w)"
| "step Destroy w = snd (destroy w)"
| "step (Send b) w = snd (send b w)"
| "step (Notify k n) w = (if kind_of n \<in> listeners w k then handle n w else w)"
| "step (TimerFire h) w =
     (case timers w h of
        None \<Rightarrow> w
      | Some d \<Rightarrow> timer_callback (w\<lparr>timers := (timers w)(h := None)\<rparr>))"

fun run :: "input list \<Rightarrow> world \<Rightarrow> world" where
  "run [] w = w"
| "run (i # is) w = run is (step i w)"

subsection \<open>The order of a socket's notifications\<close>

text \<open>
  The ws library emits close on a socket only after it has emitted open or error on
  it. A sequence of turns is in that order when every close notification comes from a
  socket that, since it was created, has already delivered open or error; \<open>S\<close>
  collects those sockets along the run. Nothing is asked of the other notifications.
\<close>

fun reports_outcome :: "notification \<Rightarrow> bool" where
  "reports_outcome OpenEvent = True"
| "reports_outcome (ErrorEvent m) = True"
| "reports_outcome n = False"

fun ws_ordered :: "nat set \<Rightarrow> input list \<Rightarrow> world \<Rightarrow> bool" where
  "ws_ordered S [] w = True"
| "ws_ordered S (Notify k n # ins) w =
     ((n = CloseEvent \<longrightarrow> k \<in> S) \<and>
      ws_ordered (if reports_outcome n \<and> k < next_socket w then insert k S else S) ins
        (step (Notify k n) w))"
| "ws_ordered S (i # ins) w = ws_ordered S ins (step i w)"

subsection \<open>Observations on traces\<close>

text \<open>The effects of one or several turns: what the trace gained from \<open>w\<close> to \<open>w'\<close>.\<close>

definition emitted :: "world \<Rightarrow> world \<Rightarrow> effect list" where
  "emitted w w' = drop (length (trace w)) (trace w')"

text \<open>Promise \<open>p\<close> is settled by a call of its resolver or of its rejector.\<close>

fun settles :: "nat \<Rightarrow> effect \<Rightarrow> bool" where
  "settles p (Resolve q) = (p = q)"
| "settles p (Reject q e) = (p = q)"
| "settles p x = False"

definition settle_count :: "nat \<Rightarrow> effect list \<Rightarrow> nat" where
  "settle_count p tr = length (filter (settles p) tr)"

fun error_emissions :: "effect list \<Rightarrow> js_error list" where
  "error_emissions [] = []"
| "error_emissions (Emit (EmitError e) # tr) = e # error_emissions tr"
| "error_emissions (x # tr) = error_emissions tr"

fun data_emissions :: "effect list \<Rightarrow> bytes list" where
  "data_emissions [] = []"
| "data_emissions (Emit (EmitData b) # tr) = b # data_emissions tr"
| "data_emissions (x # tr) = data_emissions tr"

text \<open>
  The traces of the fatal branch of \<^verbatim>\<open>_open\<close>: its error log, and the thrown error
  reaching the event loop or the promise of \<^verbatim>\<open>connect\<close>.
\<close>

fun fatal :: "effect \<Rightarrow> bool" where
  "fatal (Log Err m) = True"
| "fatal (Uncaught e) = True"
| "fatal (Reject p (Error AttemptToOpenSocketWhileCurrentIsntClosed)) = True"
| "fatal x = False"

text \<open>Arming a timer.\<close>

fun arms :: "effect \<Rightarrow> bool" where
  "arms (SetTimeout h d) = True"
| "arms x = False"

subsection \<open>Invariant of the reachable states\<close>

text \<open>
  Only the current socket carries listeners, and it carries all four; the only timer that can be armed is the
  one whose handle is stored in \<^verbatim>\<open>_timeout\<close>, and while it is armed there is no
  socket, the connected flag is off and the delay is positive; socket and promise
  numbers in use are below the allocation counters.
\<close>

fun listeners_of :: "nat option \<Rightarrow> nat \<Rightarrow> evkind set" where
  "listeners_of None j = {}"
| "listeners_of (Some k) j = (if j = k then {OpenK, MessageK, CloseK, ErrorK} else {})"

definition wf :: "world \<Rightarrow> bool" where
  "wf w \<longleftrightarrow>
     listeners w = listeners_of (socket w) \<and>
     (\<forall>h. timers w h \<noteq> None \<longrightarrow>
        h = timeout w \<and> socket w = None \<and> \<not> connected w \<and> 0 < reconnect w) \<and>
     (\<forall>k. socket w = Some k \<longrightarrow> k < next_socket w) \<and>
     (\<forall>p. pending w = Some p \<longrightarrow> p < next_promise w)"

subsection \<open>A concrete instance\<close>

text \<open>An instance without autoconnect and with a reconnect delay of one second.\<close>

definition demo_options :: options where
  "demo_options = \<lparr>opt_logger = 0, opt_autoconnect = False, opt_reconnect = 1000\<rparr>"

definition demo :: world where
  "demo = constructor ''ws://localhost:8080'' demo_options"

section \<open>Properties\<close>

subsection \<open>The invariant holds in every reachable state\<close>

lemmas prim_defs = effect_def logger_debug_def logger_err_def emit_def clearTimeout_def
  setTimeout_def addEventListener_def removeEventListener_def new_WebSocket_def
  new_Promise_def Promise_reject_def Promise_resolve_def

lemmas method_defs = connect_def disconnect_def destroy_def send_def priv_open_def
  priv_close_def priv_drop_def priv_reconnect_def events_open_def events_close_def
  events_error_def timer_callback_def prim_defs Let_def

lemmas run_defs = demo_def demo_options_def constructor_def method_defs

lemma evkind_rest [simp]:
  "x \<noteq> ErrorK \<Longrightarrow> x \<noteq> CloseK \<Longrightarrow> x \<noteq> MessageK \<Longrightarrow> x = OpenK"
  by (cases x) auto

lemma listeners_of_open [simp]:
  "(listeners_of None)(k := {ErrorK, CloseK, MessageK, OpenK}) = listeners_of (Some k)"
  "(\<lambda>j. {})(k := {ErrorK, CloseK, MessageK, OpenK}) = listeners_of (Some k)"
  by (auto simp: fun_eq_iff)

lemma listeners_of_close [simp]: "(listeners_of (Some k))(k := {}) = listeners_of None"
  by (auto simp: fun_eq_iff)

lemma wf_armed:
  assumes "wf w" "timers w h = Some d"
  shows "(timers w)(h := None) = Map.empty" "socket w = None" "\<not> connected w"
    "listeners w = (\<lambda>k. {})" "h = timeout w"
proof -
  from assms have t: "\<forall>h'. timers w h' \<noteq> None \<longrightarrow> h' = timeout w" and h: "h = timeout w"
    and s: "socket w = None" and c: "\<not> connected w"
    and l: "listeners w = listeners_of (socket w)"
    by (auto simp: wf_def)
  show "(timers w)(h := None) = Map.empty"
  proof
    fix h' show "((timers w)(h := None)) h' = Map.empty h'"
      using t h by (cases "h' = h") auto
  qed
  show "socket w = None" by (rule s)
  show "\<not> connected w" by (rule c)
  show "listeners w = (\<lambda>k. {})" using l s by (simp add: fun_eq_iff)
  show "h = timeout w" by (rule h)
qed

lemma wf_constructor: "wf (constructor addr opts)"
  by (auto simp: wf_def constructor_def connect_def priv_open_def prim_defs Let_def)

lemma wf_connect: "wf w \<Longrightarrow> wf (snd (connect w))"
  by (auto simp: wf_def connect_def priv_open_def prim_defs Let_def split: option.splits)

lemma wf_disconnect: "wf w \<Longrightarrow> wf (snd (disconnect w))"
  by (auto simp: wf_def disconnect_def priv_close_def priv_drop_def priv_reconnect_def
      prim_defs Let_def split: option.splits)

lemma wf_destroy: "wf w \<Longrightarrow> wf (snd (destroy w))"
  by (auto simp: wf_def destroy_def priv_close_def priv_drop_def priv_reconnect_def
      prim_defs Let_def split: option.splits)

lemma wf_send: "wf w \<Longrightarrow> wf (snd (send b w))"
  by (auto simp: wf_def send_def prim_defs split: option.splits)

lemma wf_events_open: "wf w \<Longrightarrow> OpenK \<in> listeners w k \<Longrightarrow> wf (events_open w)"
  by (auto simp: wf_def events_open_def prim_defs Let_def split: option.splits)

lemma wf_events_close: "wf w \<Longrightarrow> wf (events_close w)"
  by (auto simp: wf_def events_close_def priv_close_def priv_reconnect_def prim_defs
      split: option.splits)

lemma wf_events_error: "wf w \<Longrightarrow> wf (events_error m w)"
  by (auto simp: wf_def events_error_def priv_close_def priv_reconnect_def prim_defs
      Let_def split: option.splits)

lemma wf_events_message: "wf w \<Longrightarrow> wf (events_message d w)"
  by (cases d) (auto simp: wf_def prim_defs)

lemma wf_timer:
  assumes "wf w" "timers w h = Some d"
  shows "wf (timer_callback (w\<lparr>timers := (timers w)(h := None)\<rparr>))"
proof -
  note a = wf_armed [OF assms]
  from assms(1) have "\<forall>p. pending w = Some p \<longrightarrow> p < next_promise w"
    by (simp add: wf_def)
  with a show ?thesis
    by (auto simp: wf_def timer_callback_def priv_open_def prim_defs)
qed

lemma wf_step: "wf w \<Longrightarrow> wf (step i w)"
proof (cases i)
  case (Notify k n)
  then show "wf w \<Longrightarrow> ?thesis"
    by (cases n) (auto simp: wf_events_open wf_events_close wf_events_error wf_events_message)
next
  case (TimerFire h)
  then show "wf w \<Longrightarrow> ?thesis"
    by (auto simp: wf_timer split: option.splits)
qed (simp_all add: wf_connect wf_disconnect wf_destroy wf_send)

lemma wf_run: "wf w \<Longrightarrow> wf (run ins w)"
  by (induction ins arbitrary: w) (simp_all add: wf_step)

lemma wf_reachable: "wf (run ins (constructor addr opts))"
  by (rule wf_run [OF wf_constructor])

lemma run_append: "run (xs @ ys) w = run ys (run xs w)"
  by (induction xs arbitrary: w) simp_all

subsection \<open>The trace only grows\<close>

lemma trace_step: "\<exists>ys. trace (step i w) = trace w @ ys"
proof (cases i)
  case (Notify k n)
  then show ?thesis
  proof (cases n)
    case (MessageEvent d)
    with Notify show ?thesis by (cases d) (simp_all add: prim_defs)
  qed (auto simp: method_defs split: option.splits)
qed (auto simp: method_defs split: option.splits)

lemma trace_run: "\<exists>ys. trace (run ins w) = trace w @ ys"
proof (induction ins arbitrary: w)
  case Nil
  show ?case by simp
next
  case (Cons i ins)
  obtain ys where a: "trace (step i w) = trace w @ ys" using trace_step by blast
  obtain zs where b: "trace (run ins (step i w)) = trace (step i w) @ zs" using Cons by blast
  show ?case using a b by simp
qed

lemma trace_emitted_step: "trace (step i w) = trace w @ emitted w (step i w)"
  using trace_step [of i w] by (auto simp: emitted_def)

lemma trace_emitted_run: "trace (run ins w) = trace w @ emitted w (run ins w)"
  using trace_run [of ins w] by (auto simp: emitted_def)

lemma emitted_run_Cons:
  "emitted w (run (i # ins) w) = emitted w (step i w) @ emitted (step i w) (run ins (step i w))"
proof -
  obtain ys where a: "trace (step i w) = trace w @ ys" using trace_step by blast
  obtain zs where b: "trace (run ins (step i w)) = trace (step i w) @ zs"
    using trace_run by blast
  show ?thesis by (simp add: emitted_def a b)
qed

subsection \<open>What a turn does to the configuration\<close>

lemma config_step:
  "address (step i w) = address w \<and> autoconnect (step i w) = autoconnect w
   \<and> logger (step i w) = logger w
   \<and> reconnect (step i w) = (if i = Disconnect \<or> i = Destroy then - 1 else reconnect w)"
proof (cases i)
  case (Notify k n)
  then show ?thesis
  proof (cases n)
    case (MessageEvent d)
    with Notify show ?thesis by (cases d) (simp_all add: prim_defs)
  qed (auto simp: events_open_def events_close_def events_error_def priv_close_def
        priv_reconnect_def prim_defs Let_def split: option.splits)
qed (auto simp: connect_def disconnect_def destroy_def send_def timer_callback_def
      priv_open_def priv_close_def priv_drop_def priv_reconnect_def prim_defs Let_def
      split: option.splits)

lemma reconnect_kept:
  "Disconnect \<notin> set ins \<Longrightarrow> Destroy \<notin> set ins \<Longrightarrow> reconnect (run ins w) = reconnect w"
proof (induction ins arbitrary: w)
  case Nil
  show ?case by simp
next
  case (Cons i ins)
  from Cons.prems have "i \<noteq> Disconnect" "i \<noteq> Destroy" by auto
  with config_step [of i w] have "reconnect (step i w) = reconnect w" by simp
  with Cons show ?case by simp
qed

lemma reconnect_constructor: "reconnect (constructor addr opts) = opt_reconnect opts"
  by (simp add: constructor_def method_defs)

subsection \<open>Inbound messages\<close>

text \<open>
  C6. A message notification that reaches the handler emits, for a text payload, exactly
  one error and no data; for a Buffer or an ArrayBuffer exactly one data emission with
  those bytes and no error; for an array of Buffers exactly one data emission with the
  fragments concatenated in order and no error. In every case nothing but the trace
  changes, and the socket is not closed.
\<close>

theorem message_emissions:
  assumes "MessageK \<in> listeners w k" and "w' = step (Notify k (MessageEvent d)) w"
  shows "data_emissions (emitted w w') =
           (case d of StringData t \<Rightarrow> [] | BufferData b \<Rightarrow> [b]
            | ArrayBufferData b \<Rightarrow> [b] | BufferArray bs \<Rightarrow> [concat bs])
         \<and> error_emissions (emitted w w') =
           (case d of StringData t \<Rightarrow> [Error ExpectingOnlyBinaryData] | BufferData b \<Rightarrow> []
            | ArrayBufferData b \<Rightarrow> [] | BufferArray bs \<Rightarrow> [])
         \<and> w'\<lparr>trace := trace w\<rparr> = w
         \<and> SocketClose k \<notin> set (emitted w w')"
  using assms by (cases d) (simp_all add: emitted_def prim_defs)

theorem message_emissions_witness:
  "MessageK \<in> listeners (step Connect demo) 0
   \<and> data_emissions
       (emitted (step Connect demo)
          (step (Notify 0 (MessageEvent (BufferArray [[1, 2], [], [3]]))) (step Connect demo)))
     = [[1, 2, 3]]"
  using message_emissions [where w = "step Connect demo" and k = 0
      and d = "BufferArray [[1, 2], [], [3]]", OF _ refl]
  by (simp add: run_defs)

subsection \<open>Sending\<close>

text \<open>
  C7. \<^verbatim>\<open>send\<close> always returns a value. Without a socket, or with the connected flag
  off, it returns the "not connected" error, logs it and calls nothing on any socket;
  with a socket and the flag on it calls the socket's send once with the bytes and
  returns no error. Nothing but the trace changes in either case, so no bytes are kept.
  On a freshly constructed instance, with or without autoconnect, it returns the error.
\<close>

theorem send_result:
  "(socket w = None \<or> \<not> connected w \<longrightarrow>
      send b w = (Some (Error ClientIsntConnected),
                  w\<lparr>trace := trace w @ [Log Debug ClientIsntConnected]\<rparr>))
   \<and> (socket w = Some k \<and> connected w \<longrightarrow>
      send b w = (None, w\<lparr>trace := trace w @ [SocketSend k b]\<rparr>))
   \<and> fst (send b (constructor addr opts)) = Some (Error ClientIsntConnected)
   \<and> emitted (constructor addr opts) (snd (send b (constructor addr opts)))
       = [Log Debug ClientIsntConnected]"
  by (auto simp: send_def emitted_def constructor_def connect_def priv_open_def prim_defs
      Let_def split: option.splits)

theorem send_result_witness:
  "socket (run [Connect, Notify 0 OpenEvent] demo) = Some 0
   \<and> connected (run [Connect, Notify 0 OpenEvent] demo)
   \<and> fst (send [1, 2] (run [Connect, Notify 0 OpenEvent] demo)) = None
   \<and> emitted (run [Connect, Notify 0 OpenEvent] demo)
       (snd (send [1, 2] (run [Connect, Notify 0 OpenEvent] demo))) = [SocketSend 0 [1, 2]]
   \<and> fst (send [1, 2] demo) = Some (Error ClientIsntConnected)"
  using send_result [where w = "run [Connect, Notify 0 OpenEvent] demo" and k = 0
      and b = "[1, 2]" and addr = "''ws://localhost:8080''" and opts = demo_options]
  by (simp add: run_defs emitted_def)

subsection \<open>Configuration\<close>

text \<open>
  C9, as the code has it. No turn of the loop changes the address, the autoconnect
  option or the logger. The reconnect delay is left alone by \<^verbatim>\<open>connect\<close>,
  \<^verbatim>\<open>send\<close>, every notification handler and the timer callback, and is set to -1 by
  \<^verbatim>\<open>disconnect\<close> and by \<^verbatim>\<open>destroy\<close>.
\<close>

theorem config_frame:
  "address (step i w) = address w \<and> autoconnect (step i w) = autoconnect w
   \<and> logger (step i w) = logger w
   \<and> reconnect (step i w) = (if i = Disconnect \<or> i = Destroy then - 1 else reconnect w)"
  by (rule config_step)

theorem config_frame_witness:
  "address (step Disconnect demo) = ''ws://localhost:8080''
   \<and> reconnect (step Disconnect demo) = - 1
   \<and> reconnect (step Connect demo) = 1000"
  using config_frame [of Disconnect demo] config_frame [of Connect demo]
  by (simp add: demo_def demo_options_def constructor_def)

text \<open>
  C9 as stated fails: the delay of the instance above is 1000 after construction and
  -1 after \<^verbatim>\<open>disconnect\<close>.
\<close>

theorem config_mutated_by_disconnect:
  "reconnect demo = 1000 \<and> reconnect (step Disconnect demo) \<noteq> reconnect demo"
  by (simp add: run_defs split: option.splits)

subsection \<open>The fatal branch of \<^verbatim>\<open>_open\<close>\<close>

lemma nofatal_step:
  assumes "wf w"
  shows "filter fatal (emitted w (step i w)) = []"
proof (cases i)
  case (Notify k n)
  then show ?thesis
  proof (cases n)
    case (MessageEvent d)
    with Notify show ?thesis by (cases d) (simp_all add: prim_defs emitted_def)
  qed (auto simp: method_defs emitted_def split: option.splits)
next
  case (TimerFire h)
  show ?thesis
  proof (cases "timers w h")
    case None
    with TimerFire show ?thesis by (simp add: emitted_def)
  next
    case (Some d)
    from wf_armed(2) [OF assms Some] TimerFire Some show ?thesis
      by (simp add: method_defs emitted_def)
  qed
qed (auto simp: method_defs emitted_def split: option.splits)

lemma nofatal_run: "wf w \<Longrightarrow> filter fatal (emitted w (run ins w)) = []"
proof (induction ins arbitrary: w)
  case Nil
  show ?case by (simp add: emitted_def)
next
  case (Cons i ins)
  from Cons.prems have "wf (step i w)" by (rule wf_step)
  with Cons.IH have "filter fatal (emitted (step i w) (run ins (step i w))) = []" by blast
  with nofatal_step [OF Cons.prems, of i] show ?case unfolding emitted_run_Cons by simp
qed

lemma nofatal_constructor: "filter fatal (trace (constructor addr opts)) = []"
  by (simp add: constructor_def method_defs)

text \<open>
  C8. Whatever the sequence of public calls, notifications and timer firings after
  construction (with or without autoconnect), the fatal branch of \<^verbatim>\<open>_open\<close> is
  never taken: the trace holds no error log, no uncaught error and no promise rejected
  with the error of that branch. At the timer's call site: whenever a timer is armed
  there is no socket, so \<^verbatim>\<open>_open\<close> called there does not throw. (At the call site in
  \<^verbatim>\<open>connect\<close> the guard before it has checked the socket.)
\<close>

theorem open_never_faults:
  "filter fatal (trace (run ins (constructor addr opts))) = []
   \<and> (timers (run ins (constructor addr opts)) h = Some d \<longrightarrow>
        socket (run ins (constructor addr opts)) = None
        \<and> fst (priv_open (run ins (constructor addr opts))) = None)"
proof -
  have "filter fatal (emitted (constructor addr opts) (run ins (constructor addr opts))) = []"
    by (rule nofatal_run [OF wf_constructor])
  then have "filter fatal (trace (run ins (constructor addr opts))) = []"
    using nofatal_constructor [of addr opts]
      trace_emitted_run [of ins "constructor addr opts"] by simp
  moreover have "timers (run ins (constructor addr opts)) h = Some d \<longrightarrow>
        socket (run ins (constructor addr opts)) = None"
    using wf_armed(2) [OF wf_reachable] by blast
  ultimately show ?thesis by (auto simp: priv_open_def prim_defs)
qed

theorem open_never_faults_witness:
  "timers (run [Connect, Notify 0 OpenEvent, Notify 0 CloseEvent] demo) 0 = Some 1000
   \<and> socket (run [Connect, Notify 0 OpenEvent, Notify 0 CloseEvent] demo) = None
   \<and> filter fatal (trace (run [Connect, Notify 0 OpenEvent, Notify 0 CloseEvent] demo)) = []"
  using open_never_faults [where ins = "[Connect, Notify 0 OpenEvent, Notify 0 CloseEvent]"
      and addr = "''ws://localhost:8080''" and opts = demo_options and h = 0 and d = 1000]
  by (simp add: run_defs)


subsection \<open>No reconnect after disconnect\<close>

lemma off_step:
  assumes "reconnect w \<le> 0" "timers w = Map.empty"
  shows "reconnect (step i w) \<le> 0 \<and> timers (step i w) = Map.empty \<and> filter arms (emitted w (step i w)) = []"
proof (cases i)
  case (Notify k n)
  then show ?thesis
  proof (cases n)
    case (MessageEvent d)
    with Notify assms show ?thesis by (cases d) (simp_all add: prim_defs emitted_def)
  qed (use assms in \<open>auto simp: method_defs emitted_def split: option.splits\<close>)
qed (use assms in \<open>auto simp: method_defs emitted_def split: option.splits\<close>)

lemma off_run:
  "reconnect w \<le> 0 \<Longrightarrow> timers w = Map.empty \<Longrightarrow>
     reconnect (run ins w) \<le> 0 \<and> timers (run ins w) = Map.empty \<and> filter arms (emitted w (run ins w)) = []"
proof (induction ins arbitrary: w)
  case Nil
  then show ?case by (simp add: emitted_def)
next
  case (Cons i ins)
  note s = off_step [OF Cons.prems, of i]
  with Cons.IH [of "step i w"] show ?case unfolding emitted_run_Cons by simp
qed

lemma disconnect_off:
  assumes "wf w"
  shows "reconnect (step Disconnect w) = - 1 \<and> timers (step Disconnect w) = Map.empty"
proof -
  have "(timers w)(timeout w := None) = Map.empty"
  proof
    fix h show "((timers w)(timeout w := None)) h = Map.empty h"
      using assms by (cases "h = timeout w") (auto simp: wf_def)
  qed
  then show ?thesis by (auto simp: method_defs split: option.splits)
qed

lemma reconnect_after_off: "reconnect w = - 1 \<Longrightarrow> reconnect (step i w) = - 1"
  using config_step [of i w] by (simp split: if_splits)


lemma disconnect_arms_nothing: "filter arms (emitted w (step Disconnect w)) = []"
  by (auto simp: method_defs emitted_def split: option.splits)

text \<open>
  C5. Take any reachable state and call \<^verbatim>\<open>disconnect\<close>. From then on, whatever
  happens, the delay stays -1 and no timer is armed at the end of any turn, so a timer
  firing does nothing and never runs \<^verbatim>\<open>_open\<close>; \<^verbatim>\<open>_reconnect\<close> leaves the
  state as it is, and no turn from the \<^verbatim>\<open>disconnect\<close> on calls setTimeout.
\<close>

theorem no_reconnect_after_disconnect:
  assumes "w = run pre (constructor addr opts)" and "w' = run post (step Disconnect w)"
  shows "reconnect w' = - 1 \<and> timers w' = Map.empty
         \<and> step (TimerFire h) w' = w'
         \<and> priv_reconnect w' = w'
         \<and> filter arms (emitted w w') = []"
proof -
  have wf: "wf w" unfolding assms(1) by (rule wf_reachable)
  note d = disconnect_off [OF wf]
  from d have le: "reconnect (step Disconnect w) \<le> 0" by simp
  note r = off_run [OF le conjunct2 [OF d], of post]
  have "reconnect w' = - 1"
    unfolding assms(2) using conjunct1 [OF d]
    by (induction post arbitrary: w rule: rev_induct) (simp_all add: run_append reconnect_after_off)
  moreover have "filter arms (emitted w w') = []"
    using emitted_run_Cons [of w Disconnect post] disconnect_arms_nothing [of w] r
    by (simp add: assms(2))
  ultimately show ?thesis using r by (simp add: assms(2) priv_reconnect_def)
qed

theorem no_reconnect_after_disconnect_witness:
  "timers (run [Connect, Notify 0 OpenEvent, Notify 0 CloseEvent] demo) 0 = Some 1000
   \<and> timers (run [TimerFire 0, Connect]
        (step Disconnect (run [Connect, Notify 0 OpenEvent, Notify 0 CloseEvent] demo)))
       = Map.empty
   \<and> socket (run [TimerFire 0, Connect]
        (step Disconnect (run [Connect, Notify 0 OpenEvent, Notify 0 CloseEvent] demo)))
       = Some 1
   \<and> step (TimerFire 0) (run [TimerFire 0, Connect]
        (step Disconnect (run [Connect, Notify 0 OpenEvent, Notify 0 CloseEvent] demo)))
       = run [TimerFire 0, Connect]
        (step Disconnect (run [Connect, Notify 0 OpenEvent, Notify 0 CloseEvent] demo))"
  using no_reconnect_after_disconnect
    [where pre = "[Connect, Notify 0 OpenEvent, Notify 0 CloseEvent]"
      and post = "[TimerFire 0, Connect]" and addr = "''ws://localhost:8080''"
      and opts = demo_options and h = 0, OF refl refl]
  by (simp add: run_defs)

subsection \<open>Unsolicited close\<close>

lemma with_socket:
  assumes "wf w" "socket w = Some k"
  shows "listeners w = listeners_of (Some k)" "timers w = Map.empty" "k < next_socket w"
proof -
  show "listeners w = listeners_of (Some k)" using assms by (simp add: wf_def)
  show "timers w = Map.empty"
  proof
    fix h show "timers w h = Map.empty h" using assms by (cases "timers w h") (auto simp: wf_def)
  qed
  show "k < next_socket w" using assms by (simp add: wf_def)
qed

text \<open>
  C4. In a reachable state with a socket, the connected flag on and no pending connect,
  a close notification of that socket reaches the handler, which emits disconnected
  exactly once, closes the socket exactly once and forgets it (no socket, flag off,
  listeners gone). With a delay above 0 exactly one timer is armed, with that delay, and
  its firing runs \<^verbatim>\<open>_open\<close>: a new socket with its four listeners. With a delay
  of 0 or less no timer is armed and none is set. The delay is the current value of
  \<^verbatim>\<open>_options.reconnect\<close>, which is the constructor's as long as neither
  \<^verbatim>\<open>disconnect\<close> nor \<^verbatim>\<open>destroy\<close> has been called.
\<close>

theorem unsolicited_close:
  assumes "w = run ins (constructor addr opts)"
    and "socket w = Some k" and "connected w" and "pending w = None"
    and "w' = step (Notify k CloseEvent) w"
  shows "count_list (emitted w w') (Emit EmitDisconnected) = 1
     \<and> count_list (emitted w w') (SocketClose k) = 1
     \<and> socket w' = None \<and> \<not> connected w' \<and> pending w' = None \<and> listeners w' k = {}
     \<and> reconnect w' = reconnect w
     \<and> (0 < reconnect w \<longrightarrow>
          timers w' = [timeout w' \<mapsto> reconnect w]
          \<and> socket (step (TimerFire (timeout w')) w') = Some (next_socket w)
          \<and> emitted w' (step (TimerFire (timeout w')) w')
              = [NewWebSocket (next_socket w) (address w),
                 AddEventListener (next_socket w) OpenK, AddEventListener (next_socket w) MessageK,
                 AddEventListener (next_socket w) CloseK, AddEventListener (next_socket w) ErrorK])
     \<and> (reconnect w \<le> 0 \<longrightarrow> timers w' = Map.empty \<and> filter arms (emitted w w') = [])
     \<and> (Disconnect \<notin> set ins \<and> Destroy \<notin> set ins \<longrightarrow> reconnect w = opt_reconnect opts)"
proof -
  have wf: "wf w" unfolding assms(1) by (rule wf_reachable)
  note c = with_socket [OF wf assms(2)]
  have "reconnect w = opt_reconnect opts" if "Disconnect \<notin> set ins" "Destroy \<notin> set ins"
    unfolding assms(1) using reconnect_kept [OF that] reconnect_constructor by simp
  moreover have "count_list (emitted w w') (Emit EmitDisconnected) = 1
     \<and> count_list (emitted w w') (SocketClose k) = 1
     \<and> socket w' = None \<and> \<not> connected w' \<and> pending w' = None \<and> listeners w' k = {}
     \<and> reconnect w' = reconnect w
     \<and> (0 < reconnect w \<longrightarrow>
          timers w' = [timeout w' \<mapsto> reconnect w]
          \<and> socket (step (TimerFire (timeout w')) w') = Some (next_socket w)
          \<and> emitted w' (step (TimerFire (timeout w')) w')
              = [NewWebSocket (next_socket w) (address w),
                 AddEventListener (next_socket w) OpenK, AddEventListener (next_socket w) MessageK,
                 AddEventListener (next_socket w) CloseK, AddEventListener (next_socket w) ErrorK])
     \<and> (reconnect w \<le> 0 \<longrightarrow> timers w' = Map.empty \<and> filter arms (emitted w w') = [])"
    using c assms(2-4) unfolding assms(5)
    by (simp add: method_defs emitted_def)
  ultimately show ?thesis by blast
qed

theorem unsolicited_close_witness:
  "socket (run [Connect, Notify 0 OpenEvent] demo) = Some 0
   \<and> connected (run [Connect, Notify 0 OpenEvent] demo)
   \<and> pending (run [Connect, Notify 0 OpenEvent] demo) = None
   \<and> count_list (emitted (run [Connect, Notify 0 OpenEvent] demo)
        (step (Notify 0 CloseEvent) (run [Connect, Notify 0 OpenEvent] demo))) (Emit EmitDisconnected) = 1
   \<and> timers (step (Notify 0 CloseEvent) (run [Connect, Notify 0 OpenEvent] demo)) 0 = Some 1000"
  using unsolicited_close [where ins = "[Connect, Notify 0 OpenEvent]"
      and addr = "''ws://localhost:8080''" and opts = demo_options and k = 0, OF refl _ _ _ refl]
  by (simp add: run_defs)


subsection \<open>Requested close\<close>

lemma retired_step:
  assumes "k < next_socket w" "socket w \<noteq> Some k"
  shows "k < next_socket (step i w) \<and> socket (step i w) \<noteq> Some k"
proof (cases i)
  case (Notify j n)
  then show ?thesis
  proof (cases n)
    case (MessageEvent d)
    with Notify assms show ?thesis by (cases d) (simp_all add: prim_defs)
  qed (use assms in \<open>auto simp: method_defs split: option.splits\<close>)
qed (use assms in \<open>auto simp: method_defs split: option.splits\<close>)

lemma retired_run:
  "k < next_socket w \<Longrightarrow> socket w \<noteq> Some k \<Longrightarrow>
     k < next_socket (run ins w) \<and> socket (run ins w) \<noteq> Some k"
  by (induction ins arbitrary: w) (simp_all add: retired_step)

lemma not_current_ignored:
  assumes "wf w" "socket w \<noteq> Some k"
  shows "listeners w k = {}" "step (Notify k n) w = w"
proof -
  from assms show "listeners w k = {}" by (cases "socket w") (auto simp: wf_def)
  then show "step (Notify k n) w = w" by simp
qed

lemma disconnected_only_on_close:
  assumes "Emit EmitDisconnected \<in> set (emitted w (step i w))"
  shows "\<exists>k. i = Notify k CloseEvent \<and> CloseK \<in> listeners w k"
proof (cases i)
  case (Notify j n)
  then show ?thesis
  proof (cases n)
    case (MessageEvent d)
    with Notify assms show ?thesis by (cases d) (simp_all add: prim_defs emitted_def split: if_splits)
  qed (use assms in \<open>auto simp: method_defs emitted_def split: option.splits if_splits\<close>)
qed (use assms in \<open>auto simp: method_defs emitted_def split: option.splits if_splits\<close>)

lemma explicit_close_step:
  assumes "wf w" "i = Disconnect \<or> i = Destroy"
  shows "socket (step i w) = None"
    "socket w = Some k \<Longrightarrow> take 6 (emitted w (step i w)) =
          [ClearTimeout (timeout w), RemoveEventListener k OpenK, RemoveEventListener k MessageK,
           RemoveEventListener k CloseK, RemoveEventListener k ErrorK, SocketClose k]"
    "next_socket (step i w) = next_socket w"
  using assms by (auto simp: method_defs emitted_def split: option.splits)

text \<open>
  C10. In a reachable state \<^verbatim>\<open>disconnect\<close> and \<^verbatim>\<open>destroy\<close> emit no
  disconnected event and leave no listener on any socket. If there was a socket, its
  four listeners are removed before its close is called, it never becomes the current
  socket again, and whatever happens later every notification it delivers (its close
  among them) is ignored. A disconnected event is only ever emitted by a turn that is a
  close notification reaching a registered close listener.
\<close>

theorem explicit_close_is_silent:
  assumes "w = run pre (constructor addr opts)" and "i = Disconnect \<or> i = Destroy"
    and "w' = run post (step i w)"
  shows "count_list (emitted w (step i w)) (Emit EmitDisconnected) = 0
     \<and> listeners (step i w) = (\<lambda>j. {})
     \<and> (socket w = Some k \<longrightarrow>
          take 6 (emitted w (step i w)) =
            [ClearTimeout (timeout w), RemoveEventListener k OpenK,
             RemoveEventListener k MessageK, RemoveEventListener k CloseK,
             RemoveEventListener k ErrorK, SocketClose k]
          \<and> socket w' \<noteq> Some k \<and> listeners w' k = {} \<and> step (Notify k n) w' = w')
     \<and> (Emit EmitDisconnected \<in> set (emitted v (step j v)) \<longrightarrow>
          (\<exists>s. j = Notify s CloseEvent \<and> CloseK \<in> listeners v s))"
proof -
  have wf: "wf w" unfolding assms(1) by (rule wf_reachable)
  have wf1: "wf (step i w)" using wf by (rule wf_step)
  have wf': "wf w'" unfolding assms(3) using wf1 by (rule wf_run)
  note e = explicit_close_step [OF wf assms(2)]
  have a: "count_list (emitted w (step i w)) (Emit EmitDisconnected) = 0"
    using disconnected_only_on_close [of w i] assms(2) by (auto simp: count_list_0_iff)
  have b: "listeners (step i w) = (\<lambda>j. {})"
    using wf1 e(1) by (simp add: wf_def fun_eq_iff)
  have c: "socket w' \<noteq> Some k \<and> listeners w' k = {} \<and> step (Notify k n) w' = w'"
    if s: "socket w = Some k"
  proof -
    from with_socket(3) [OF wf s] e(1,3) have "k < next_socket (step i w) \<and> socket (step i w) \<noteq> Some k"
      by simp
    then have "socket w' \<noteq> Some k" unfolding assms(3) using retired_run by blast
    with not_current_ignored [OF wf'] show ?thesis by blast
  qed
  from a b c e(2) disconnected_only_on_close [of v j] show ?thesis by blast
qed

theorem explicit_close_is_silent_witness:
  "socket (run [Connect, Notify 0 OpenEvent] demo) = Some 0
   \<and> count_list (emitted (run [Connect, Notify 0 OpenEvent] demo)
        (step Disconnect (run [Connect, Notify 0 OpenEvent] demo))) (Emit EmitDisconnected) = 0
   \<and> step (Notify 0 CloseEvent) (run [Connect] (step Disconnect (run [Connect, Notify 0 OpenEvent] demo)))
       = run [Connect] (step Disconnect (run [Connect, Notify 0 OpenEvent] demo))"
  using explicit_close_is_silent [where pre = "[Connect, Notify 0 OpenEvent]"
      and addr = "''ws://localhost:8080''" and opts = demo_options and k = 0 and i = Disconnect
      and post = "[Connect]" and n = CloseEvent and v = demo and j = Connect, OF refl _ refl]
  by (simp add: run_defs emitted_def)


subsection \<open>Connect while busy\<close>

lemma registered_iff: "wf w \<Longrightarrow> e \<in> listeners w k \<longleftrightarrow> socket w = Some k"
  by (cases "socket w"; cases e) (auto simp: wf_def)

lemma only_timeout_armed: "wf w \<Longrightarrow> (timers w)(timeout w := None) = Map.empty"
proof
  fix h assume "wf w"
  then show "((timers w)(timeout w := None)) h = Map.empty h"
    by (cases "h = timeout w") (auto simp: wf_def)
qed

lemma ordered_call:
  assumes "wf w"
    and "pending w \<noteq> None \<longrightarrow> timers w = Map.empty \<and> (\<forall>k. socket w = Some k \<longrightarrow> k \<notin> S)"
    and "\<forall>k\<in>S. k < next_socket w"
    and "i = Connect \<or> i = Disconnect \<or> i = Destroy \<or> i = Send b \<or> i = TimerFire h"
  shows "(pending (step i w) \<noteq> None \<longrightarrow>
            timers (step i w) = Map.empty \<and> (\<forall>k. socket (step i w) = Some k \<longrightarrow> k \<notin> S))
         \<and> (\<forall>k\<in>S. k < next_socket (step i w))"
proof -
  note t = only_timeout_armed [OF assms(1)]
  consider "i = Connect" | "i = Disconnect" | "i = Destroy" | "i = Send b" | "i = TimerFire h"
    using assms(4) by blast
  then show ?thesis
  proof cases
    case 1
    with assms(2,3) t show ?thesis by (auto simp: method_defs)
  next
    case 2
    with assms(2,3) t show ?thesis by (auto simp: method_defs split: option.splits)
  next
    case 3
    with assms(2,3) t show ?thesis by (auto simp: method_defs split: option.splits)
  next
    case 4
    with assms(2,3) show ?thesis by (auto simp: method_defs)
  next
    case 5
    show ?thesis
    proof (cases "timers w h")
      case None
      with 5 assms(2,3) show ?thesis by simp
    next
      case (Some d)
      with assms(2) have "pending w = None" by auto
      with 5 Some assms(3) wf_armed(1,2) [OF assms(1) Some] show ?thesis
        by (auto simp: method_defs)
    qed
  qed
qed

lemma ordered_notify:
  assumes "wf w"
    and "pending w \<noteq> None \<longrightarrow> timers w = Map.empty \<and> (\<forall>j. socket w = Some j \<longrightarrow> j \<notin> S)"
    and "\<forall>j\<in>S. j < next_socket w"
    and "n = CloseEvent \<longrightarrow> k \<in> S"
    and "S' = (if reports_outcome n \<and> k < next_socket w then insert k S else S)"
    and "w' = step (Notify k n) w"
  shows "(pending w' \<noteq> None \<longrightarrow>
            timers w' = Map.empty \<and> (\<forall>j. socket w' = Some j \<longrightarrow> j \<notin> S'))
         \<and> (\<forall>j\<in>S'. j < next_socket w')"
proof (cases "socket w = Some k")
  case False
  then have "kind_of n \<notin> listeners w k" using registered_iff [OF assms(1)] by blast
  then have "w' = w" using assms(6) by simp
  with assms(2,3,5) False show ?thesis by auto
next
  case True
  then have reg: "kind_of n \<in> listeners w k" using registered_iff [OF assms(1)] by blast
  note c = with_socket [OF assms(1) True]
  show ?thesis
  proof (cases n)
    case OpenEvent
    with reg assms(3,5,6) True c(3) show ?thesis
      by (auto simp: method_defs split: option.splits)
  next
    case CloseEvent
    with assms(4) have "k \<in> S" by simp
    with assms(2) True have p: "pending w = None" by auto
    with CloseEvent reg assms(3,5,6) True show ?thesis
      by (auto simp: method_defs split: option.splits)
  next
    case (MessageEvent d)
    with reg assms(2,3,5,6) show ?thesis by (cases d) (auto simp: prim_defs)
  next
    case (ErrorEvent m)
    with reg assms(3,5,6) True c(3) show ?thesis
      by (auto simp: method_defs split: option.splits)
  qed
qed

lemma ordered_run:
  "wf w \<Longrightarrow>
   (pending w \<noteq> None \<longrightarrow> timers w = Map.empty \<and> (\<forall>j. socket w = Some j \<longrightarrow> j \<notin> S)) \<Longrightarrow>
   (\<forall>j\<in>S. j < next_socket w) \<Longrightarrow> ws_ordered S ins w \<Longrightarrow>
   pending (run ins w) \<noteq> None \<longrightarrow> timers (run ins w) = Map.empty"
proof (induction ins arbitrary: S w)
  case Nil
  then show ?case by simp
next
  case (Cons i ins)
  have wf': "wf (step i w)" using Cons.prems(1) by (rule wf_step)
  have call: ?case
    if c: "i = Connect \<or> i = Disconnect \<or> i = Destroy \<or> i = Send b \<or> i = TimerFire h"
    for b h
  proof -
    from c Cons.prems(4) have o: "ws_ordered S ins (step i w)" by auto
    note s = ordered_call [OF Cons.prems(1-3) c]
    from Cons.IH [OF wf' conjunct1 [OF s] conjunct2 [OF s] o] show ?thesis by simp
  qed
  show ?case
  proof (cases i)
    case (Notify k n)
    define S' where "S' = (if reports_outcome n \<and> k < next_socket w then insert k S else S)"
    from Cons.prems(4) Notify have a: "n = CloseEvent \<longrightarrow> k \<in> S"
      and o: "ws_ordered S' ins (step (Notify k n) w)" by (simp_all add: S'_def)
    note s = ordered_notify [OF Cons.prems(1-3) a S'_def refl]
    from Cons.IH [OF wf' [unfolded Notify] conjunct1 [OF s] conjunct2 [OF s] o] Notify
    show ?thesis by simp
  qed (use call in blast)+
qed

lemma ordered_constructor:
  "pending (constructor addr opts) \<noteq> None \<longrightarrow>
     timers (constructor addr opts) = Map.empty
     \<and> (\<forall>j. socket (constructor addr opts) = Some j \<longrightarrow> j \<notin> {})"
  by (simp add: constructor_def method_defs)

lemma connect_busy:
  assumes "pending w \<noteq> None \<or> connected w \<or> socket w \<noteq> None"
  shows "connect w =
        (next_promise w,
         w\<lparr>timers := (timers w)(timeout w := None),
           next_promise := Suc (next_promise w),
           trace := trace w @
             [ClearTimeout (timeout w),
              Log Debug (if pending w \<noteq> None then ConnectionIsAlreadyRequested else AlreadyConnected),
              Reject (next_promise w)
                (Error (if pending w \<noteq> None then ConnectionIsAlreadyRequested else AlreadyConnected))]\<rparr>)"
  using assms by (auto simp: method_defs)

text \<open>
  C3. Take a run from the constructor in which every socket reports close only after
  open or error, and a state of it with a pending connect, or the connected flag on, or
  a socket present. There \<^verbatim>\<open>connect\<close> returns a fresh promise already rejected
  ("already requested" when a connect is pending, "already connected" otherwise) and
  nothing of the state changes but the promise counter and the trace: no socket is
  created, the pending connect, the socket, the flag, the timer handle and the
  configuration are as before, and no timer is armed in such a state, so the
  clearTimeout that \<^verbatim>\<open>connect\<close> starts with cancels nothing.
\<close>

theorem connect_while_busy:
  assumes "ws_ordered {} ins (constructor addr opts)"
    and "r = run ins (constructor addr opts)"
    and "pending r \<noteq> None \<or> connected r \<or> socket r \<noteq> None"
  shows "connect r =
           (next_promise r,
            r\<lparr>next_promise := Suc (next_promise r),
              trace := trace r @
                [ClearTimeout (timeout r),
                 Log Debug (if pending r \<noteq> None then ConnectionIsAlreadyRequested
                            else AlreadyConnected),
                 Reject (next_promise r)
                   (Error (if pending r \<noteq> None then ConnectionIsAlreadyRequested
                           else AlreadyConnected))]\<rparr>)
         \<and> timers r = Map.empty"
proof -
  have wf: "wf r" unfolding assms(2) by (rule wf_reachable)
  have p: "pending r \<noteq> None \<longrightarrow> timers r = Map.empty"
    unfolding assms(2)
    by (rule ordered_run [OF wf_constructor ordered_constructor _ assms(1)]) simp
  have t: "timers r = Map.empty"
  proof (cases "pending r \<noteq> None")
    case True
    with p show ?thesis by blast
  next
    case False
    with assms(3) have c: "connected r \<or> socket r \<noteq> None" by blast
    show ?thesis
    proof
      fix h show "timers r h = Map.empty h"
        using wf c by (cases "timers r h") (auto simp: wf_def)
    qed
  qed
  then have "r\<lparr>timers := (timers r)(timeout r := None)\<rparr> = r" by simp
  with connect_busy [OF assms(3)] t show ?thesis by simp
qed

theorem connect_while_busy_witness:
  "ws_ordered {} [Connect] demo
   \<and> pending (run [Connect] demo) = Some 0
   \<and> fst (connect (run [Connect] demo)) = 1
   \<and> emitted (run [Connect] demo) (snd (connect (run [Connect] demo)))
       = [ClearTimeout (- 1), Log Debug ConnectionIsAlreadyRequested,
          Reject 1 (Error ConnectionIsAlreadyRequested)]
   \<and> ws_ordered {} [Connect, Notify 0 OpenEvent, Notify 0 CloseEvent, TimerFire 0] demo
   \<and> socket (run [Connect, Notify 0 OpenEvent, Notify 0 CloseEvent, TimerFire 0] demo) = Some 1
   \<and> emitted (run [Connect, Notify 0 OpenEvent, Notify 0 CloseEvent, TimerFire 0] demo)
        (snd (connect (run [Connect, Notify 0 OpenEvent, Notify 0 CloseEvent, TimerFire 0] demo)))
       = [ClearTimeout 0, Log Debug AlreadyConnected, Reject 1 (Error AlreadyConnected)]
   \<and> socket (snd (connect (run [Connect, Notify 0 OpenEvent, Notify 0 CloseEvent, TimerFire 0] demo)))
       = Some 1"
  using connect_while_busy [where ins = "[Connect]"
      and addr = "''ws://localhost:8080''" and opts = demo_options, OF _ refl]
    connect_while_busy [where ins = "[Connect, Notify 0 OpenEvent, Notify 0 CloseEvent, TimerFire 0]"
      and addr = "''ws://localhost:8080''" and opts = demo_options, OF _ refl]
  by (simp add: run_defs emitted_def)

text \<open>
  The order of the notifications matters. Were a close to reach the handler while the
  connect is still pending, \<^verbatim>\<open>_close\<close> would arm the reconnect timer with the
  connect still pending, and the next \<^verbatim>\<open>connect\<close> would cancel that timer before
  rejecting. The run below is not in the order above.
\<close>

lemma close_before_outcome:
  "\<not> ws_ordered {} [Connect, Notify 0 CloseEvent] demo
   \<and> pending (run [Connect, Notify 0 CloseEvent] demo) = Some 0
   \<and> timers (run [Connect, Notify 0 CloseEvent] demo) 0 = Some 1000
   \<and> timers (snd (connect (run [Connect, Notify 0 CloseEvent] demo))) 0 = None"
  by (simp add: run_defs)

subsection \<open>Disconnect while a connect is pending\<close>

lemma abandoned_step_stuck:
  assumes "p < next_promise w" "settle_count p (trace w) = 0" "pending w = Some p"
     "socket w = None" "reconnect w \<le> 0" "timers w = Map.empty" "listeners w = (\<lambda>k. {})"
  shows "p < next_promise (step i w) \<and> settle_count p (trace (step i w)) = 0
     \<and> (pending (step i w) = Some p \<longrightarrow>
           socket (step i w) = None \<and> reconnect (step i w) \<le> 0
           \<and> timers (step i w) = Map.empty \<and> listeners (step i w) = (\<lambda>k. {}))"
  using assms by (cases i) (simp_all add: method_defs settle_count_def)

lemma abandoned_step_other:
  assumes "p < next_promise w" "settle_count p (trace w) = 0" "pending w \<noteq> Some p"
  shows "p < next_promise (step i w) \<and> settle_count p (trace (step i w)) = 0
     \<and> pending (step i w) \<noteq> Some p"
proof (cases i)
  case Connect
  with assms show ?thesis by (simp add: method_defs settle_count_def split: option.splits)
next
  case Disconnect
  with assms show ?thesis by (simp add: method_defs settle_count_def split: option.splits)
next
  case Destroy
  with assms show ?thesis by (simp add: method_defs settle_count_def split: option.splits)
next
  case (Send b)
  with assms show ?thesis by (simp add: method_defs settle_count_def split: option.splits)
next
  case (Notify j n)
  show ?thesis
  proof (cases n)
    case OpenEvent
    with Notify assms show ?thesis by (auto simp: method_defs settle_count_def split: option.splits)
  next
    case CloseEvent
    with Notify assms show ?thesis by (simp add: method_defs settle_count_def split: option.splits)
  next
    case (MessageEvent d)
    with Notify assms show ?thesis by (cases d) (simp_all add: prim_defs settle_count_def)
  next
    case (ErrorEvent m)
    with Notify assms show ?thesis by (auto simp: method_defs settle_count_def split: option.splits)
  qed
next
  case (TimerFire h)
  with assms show ?thesis by (simp add: method_defs settle_count_def split: option.splits)
qed

lemma wedged_step:
  assumes "i \<noteq> Destroy" "pending w = Some p" "socket w = None" "reconnect w \<le> 0"
    "timers w = Map.empty" "listeners w = (\<lambda>k. {})"
  shows "pending (step i w) = Some p \<and> socket (step i w) = None \<and> reconnect (step i w) \<le> 0
     \<and> timers (step i w) = Map.empty \<and> listeners (step i w) = (\<lambda>k. {})"
  using assms by (cases i) (simp_all add: method_defs)

lemma abandoned_run:
  "p < next_promise w \<Longrightarrow> settle_count p (trace w) = 0 \<Longrightarrow>
   (pending w = Some p \<longrightarrow>
      socket w = None \<and> reconnect w \<le> 0 \<and> timers w = Map.empty \<and> listeners w = (\<lambda>k. {})) \<Longrightarrow>
   settle_count p (trace (run ins w)) = 0"
proof (induction ins arbitrary: w)
  case Nil
  then show ?case by simp
next
  case (Cons i ins)
  show ?case
  proof (cases "pending w = Some p")
    case True
    with Cons.prems abandoned_step_stuck [of p w i] Cons.IH [of "step i w"] show ?thesis by simp
  next
    case False
    with Cons.prems abandoned_step_other [of p w i] Cons.IH [of "step i w"] show ?thesis by simp
  qed
qed

lemma wedged_run:
  "Destroy \<notin> set ins \<Longrightarrow> pending w = Some p \<Longrightarrow> socket w = None \<Longrightarrow> reconnect w \<le> 0 \<Longrightarrow>
   timers w = Map.empty \<Longrightarrow> listeners w = (\<lambda>k. {}) \<Longrightarrow>
   pending (run ins w) = Some p \<and> socket (run ins w) = None"
proof (induction ins arbitrary: w)
  case Nil
  then show ?case by simp
next
  case (Cons i ins)
  from Cons.prems have "i \<noteq> Destroy" "Destroy \<notin> set ins" by auto
  from wedged_step [OF this(1) Cons.prems(2-6)] Cons.IH [OF this(2), of "step i w"]
  show ?case by simp
qed

lemma after_connect_disconnect:
  "pending (run [Connect, Disconnect] demo) = Some 0"
  "socket (run [Connect, Disconnect] demo) = None"
  "reconnect (run [Connect, Disconnect] demo) \<le> 0"
  "timers (run [Connect, Disconnect] demo) = Map.empty"
  "listeners (run [Connect, Disconnect] demo) = (\<lambda>k. {})"
  "0 < next_promise (run [Connect, Disconnect] demo)"
  "settle_count 0 (trace (run [Connect, Disconnect] demo)) = 0"
  by (simp_all add: run_defs settle_count_def fun_eq_iff)

text \<open>
  C1 does not hold of the code. \<^verbatim>\<open>connect\<close> followed by \<^verbatim>\<open>disconnect\<close>
  leaves the pending connect (promise 0) in place with no socket to settle it: whatever
  happens afterwards, promise 0 is neither resolved nor rejected, and as long as
  \<^verbatim>\<open>destroy\<close> is not called the pending connect stays and no socket is ever opened
  again (every later \<^verbatim>\<open>connect\<close> is rejected as already requested).
\<close>

theorem disconnect_abandons_pending:
  "fst (connect demo) = 0
   \<and> settle_count 0 (trace (run ([Connect, Disconnect] @ ins) demo)) = 0
   \<and> (Destroy \<notin> set ins \<longrightarrow>
        pending (run ([Connect, Disconnect] @ ins) demo) = Some 0
        \<and> socket (run ([Connect, Disconnect] @ ins) demo) = None)"
proof -
  have "fst (connect demo) = 0" by (simp add: run_defs)
  moreover have "settle_count 0 (trace (run ([Connect, Disconnect] @ ins) demo)) = 0"
    unfolding run_append
    by (rule abandoned_run [OF after_connect_disconnect(6) after_connect_disconnect(7)])
      (use after_connect_disconnect in blast)
  moreover have "pending (run ([Connect, Disconnect] @ ins) demo) = Some 0
        \<and> socket (run ([Connect, Disconnect] @ ins) demo) = None" if "Destroy \<notin> set ins"
    unfolding run_append
    by (rule wedged_run [OF that after_connect_disconnect(1-5)])
  ultimately show ?thesis by blast
qed

theorem disconnect_abandons_pending_witness:
  "settle_count 0 (trace (run [Connect, Disconnect, Notify 0 OpenEvent, Connect] demo)) = 0
   \<and> pending (run [Connect, Disconnect, Notify 0 OpenEvent, Connect] demo) = Some 0
   \<and> socket (run [Connect, Disconnect, Notify 0 OpenEvent, Connect] demo) = None"
  using disconnect_abandons_pending [where ins = "[Notify 0 OpenEvent, Connect]"]
  by simp

subsection \<open>Connect after disconnect\<close>

lemma dead_step:
  assumes "connected w" "socket w = None" "reconnect w \<le> 0" "timers w = Map.empty"
    "listeners w = (\<lambda>k. {})"
  shows "connected (step i w) \<and> socket (step i w) = None \<and> reconnect (step i w) \<le> 0
     \<and> timers (step i w) = Map.empty \<and> listeners (step i w) = (\<lambda>k. {})"
  using assms by (cases i) (simp_all add: method_defs)

lemma dead_run:
  "connected w \<Longrightarrow> socket w = None \<Longrightarrow> reconnect w \<le> 0 \<Longrightarrow> timers w = Map.empty \<Longrightarrow>
   listeners w = (\<lambda>k. {}) \<Longrightarrow> connected (run ins w) \<and> socket (run ins w) = None"
proof (induction ins arbitrary: w)
  case Nil
  then show ?case by simp
next
  case (Cons i ins)
  from dead_step [OF Cons.prems, of i] Cons.IH [of "step i w"] show ?case by simp
qed

lemma after_open_disconnect:
  "connected (run [Connect, Notify 0 OpenEvent, Disconnect] demo)"
  "socket (run [Connect, Notify 0 OpenEvent, Disconnect] demo) = None"
  "reconnect (run [Connect, Notify 0 OpenEvent, Disconnect] demo) \<le> 0"
  "timers (run [Connect, Notify 0 OpenEvent, Disconnect] demo) = Map.empty"
  "listeners (run [Connect, Notify 0 OpenEvent, Disconnect] demo) = (\<lambda>k. {})"
  by (simp_all add: run_defs fun_eq_iff)

text \<open>
  C2 does not hold of the code. \<^verbatim>\<open>disconnect\<close> does not reset the connected flag:
  after connect, open and disconnect there is no socket and no pending connect, yet the
  next \<^verbatim>\<open>connect\<close> is rejected as already connected, creates no pending connect
  and opens no socket, while \<^verbatim>\<open>send\<close> in the same state answers "not connected";
  and whatever happens afterwards no socket is ever opened again.
\<close>

theorem connect_after_disconnect_rejected:
  "pending (run [Connect, Notify 0 OpenEvent, Disconnect] demo) = None
   \<and> socket (run [Connect, Notify 0 OpenEvent, Disconnect] demo) = None
   \<and> emitted (run [Connect, Notify 0 OpenEvent, Disconnect] demo)
        (step Connect (run [Connect, Notify 0 OpenEvent, Disconnect] demo))
       = [ClearTimeout (- 1), Log Debug AlreadyConnected, Reject 2 (Error AlreadyConnected)]
   \<and> pending (step Connect (run [Connect, Notify 0 OpenEvent, Disconnect] demo)) = None
   \<and> fst (send b (run [Connect, Notify 0 OpenEvent, Disconnect] demo))
       = Some (Error ClientIsntConnected)
   \<and> socket (run ([Connect, Notify 0 OpenEvent, Disconnect] @ ins) demo) = None"
proof -
  have "socket (run ([Connect, Notify 0 OpenEvent, Disconnect] @ ins) demo) = None"
    unfolding run_append using dead_run [OF after_open_disconnect] by blast
  moreover have "pending (run [Connect, Notify 0 OpenEvent, Disconnect] demo) = None
   \<and> socket (run [Connect, Notify 0 OpenEvent, Disconnect] demo) = None
   \<and> emitted (run [Connect, Notify 0 OpenEvent, Disconnect] demo)
        (step Connect (run [Connect, Notify 0 OpenEvent, Disconnect] demo))
       = [ClearTimeout (- 1), Log Debug AlreadyConnected, Reject 2 (Error AlreadyConnected)]
   \<and> pending (step Connect (run [Connect, Notify 0 OpenEvent, Disconnect] demo)) = None
   \<and> fst (send b (run [Connect, Notify 0 OpenEvent, Disconnect] demo))
       = Some (Error ClientIsntConnected)"
    by (simp add: run_defs emitted_def)
  ultimately show ?thesis by blast
qed

theorem connect_after_disconnect_rejected_witness:
  "socket (run [Connect, Notify 0 OpenEvent, Disconnect, Connect, Connect] demo) = None"
  using connect_after_disconnect_rejected [where ins = "[Connect, Connect]"]
  by simp

end
